theory Spec2Isabelle
  imports Main
begin

section \<open>Sequence operations of package seq\<close>

text \<open>
  A Go slice is modelled as a HOL list. The \<^verbatim>\<open>for _, v := range slice\<close> loops become
  recursion over the list, carrying the loop's local variables as arguments;
  \<^verbatim>\<open>append(out, v)\<close> is \<open>out @ [v]\<close>. A run-time panic is a value of type \<open>panic\<close>
  on the left of a sum.
\<close>

datatype panic =
    EmptyList string
  | SliceBoundsOutOfRange
  | IndexOutOfRange

subsection \<open>Filter\<close>

fun Filter_loop :: "'a list \<Rightarrow> ('a \<Rightarrow> bool) \<Rightarrow> 'a list \<Rightarrow> 'a list" where
  "Filter_loop [] keep out = out"
| "Filter_loop (v # rest) keep out =
     (if keep v then Filter_loop rest keep (out @ [v]) else Filter_loop rest keep out)"

definition Filter :: "'a list \<Rightarrow> ('a \<Rightarrow> bool) \<Rightarrow> 'a list" where
  "Filter slice keep = Filter_loop slice keep []"

subsection \<open>Reduce\<close>

fun Reduce_loop :: "'a list \<Rightarrow> 'r \<Rightarrow> ('r \<Rightarrow> 'a \<Rightarrow> 'r) \<Rightarrow> 'r" where
  "Reduce_loop [] acc f = acc"
| "Reduce_loop (v # rest) acc f = Reduce_loop rest (f acc v) f"

definition Reduce :: "'a list \<Rightarrow> 'r \<Rightarrow> ('r \<Rightarrow> 'a \<Rightarrow> 'r) \<Rightarrow> 'r" where
  "Reduce slice init f = Reduce_loop slice init f"

text \<open>
  A combine function that records each of its calls, in the order they happen, next to
  the accumulator it computes. Passing it to \<open>Reduce\<close> makes the calls observable.
\<close>

definition logged :: "('r \<Rightarrow> 'a \<Rightarrow> 'r) \<Rightarrow> ('r \<times> 'a) list \<times> 'r \<Rightarrow> 'a \<Rightarrow> ('r \<times> 'a) list \<times> 'r" where
  "logged f st v = (fst st @ [(snd st, v)], f (snd st) v)"

subsection \<open>Partition\<close>

fun Partition_loop ::
  "'a list \<Rightarrow> ('a \<Rightarrow> bool) \<Rightarrow> 'a list \<Rightarrow> 'a list \<Rightarrow> 'a list \<times> 'a list" where
  "Partition_loop [] pred matches nonMatches = (matches, nonMatches)"
| "Partition_loop (v # rest) pred matches nonMatches =
     (if pred v then Partition_loop rest pred (matches @ [v]) nonMatches
      else Partition_loop rest pred matches (nonMatches @ [v]))"

definition Partition :: "'a list \<Rightarrow> ('a \<Rightarrow> bool) \<Rightarrow> 'a list \<times> 'a list" where
  "Partition slice pred = Partition_loop slice pred [] []"

subsection \<open>LastIndex\<close>

text \<open>
  The loop \<^verbatim>\<open>for i := len(slice) - 1; i >= 0; i--\<close> with its index \<open>i\<close> as a signed
  integer. The read \<^verbatim>\<open>slice[i]\<close> panics in Go when \<open>i\<close> is not below the length; the
  model keeps that check.
\<close>

function LastIndex_loop :: "'a list \<Rightarrow> 'a \<Rightarrow> int \<Rightarrow> panic + int \<times> bool" where
  "LastIndex_loop slice v i =
     (if i \<ge> 0 then
        (if nat i < length slice then
           (if slice ! nat i = v then Inr (i, True) else LastIndex_loop slice v (i - 1))
         else Inl IndexOutOfRange)
      else Inr (- 1, False))"
  by pat_completeness auto
termination
  by (relation "measure (\<lambda>(slice, v, i). nat (i + 1))") auto

declare LastIndex_loop.simps [simp del]

definition LastIndex :: "'a list \<Rightarrow> 'a \<Rightarrow> panic + int \<times> bool" where
  "LastIndex slice v = LastIndex_loop slice v (int (length slice) - 1)"

subsection \<open>Unique\<close>

text \<open>
  The set \<^verbatim>\<open>seen\<close> is a Go map with values of the empty struct type: a partial map
  into \<open>unit\<close>. Go's \<^verbatim>\<open>==\<close> on the element type is HOL equality (so no floating-point
  NaN, which is unequal to itself).
\<close>

fun Unique_loop :: "'a list \<Rightarrow> ('a \<rightharpoonup> unit) \<Rightarrow> 'a list \<Rightarrow> 'a list" where
  "Unique_loop [] seen unique = unique"
| "Unique_loop (item # rest) seen unique =
     (case seen item of
        None \<Rightarrow> Unique_loop rest (seen(item \<mapsto> ())) (unique @ [item])
      | Some ok \<Rightarrow> Unique_loop rest seen unique)"

definition Unique :: "'a list \<Rightarrow> 'a list" where
  "Unique slice = Unique_loop slice Map.empty []"

subsection \<open>Chunk\<close>

text \<open>
  Go's \<^verbatim>\<open>int\<close> is, on 64-bit platforms, a 64-bit two's-complement integer whose
  addition wraps around: \<open>wrap64\<close> maps the mathematical sum to the value the machine
  computes. The length of a slice is a non-negative \<^verbatim>\<open>int\<close>, so below \<open>2 ^ 63\<close>.
\<close>

definition wrap64 :: "int \<Rightarrow> int" where
  "wrap64 x = (x + 2 ^ 63) mod 2 ^ 64 - 2 ^ 63"

text \<open>
  The loop \<^verbatim>\<open>for i := 0; i < len(slice); i += size\<close> with the state \<open>i\<close> and \<open>chunks\<close>.
  It need not terminate, so its result is an option: \<open>None\<close> when the loop runs
  forever. The slice expression \<^verbatim>\<open>slice[i:end]\<close> panics unless
  \<open>0 \<le> i \<le> end \<le> cap(slice)\<close>; here \<open>end\<close> is at most the length, which is at most
  the capacity, so the check that remains is \<open>0 \<le> i \<le> end\<close>. Its value is the
  \<open>end - i\<close> elements from index \<open>i\<close> on.
\<close>

partial_function (option) Chunk_loop ::
  "'a list \<Rightarrow> int \<Rightarrow> int \<Rightarrow> 'a list list \<Rightarrow> (panic + 'a list list) option" where
  "Chunk_loop slice size' i chunks =
     (if i < int (length slice) then
        (let end' = min (wrap64 (i + size')) (int (length slice)) in
         if 0 \<le> i \<and> i \<le> end' then
           Chunk_loop slice size' (wrap64 (i + size'))
             (chunks @ [take (nat (end' - i)) (drop (nat i) slice)])
         else Some (Inl SliceBoundsOutOfRange))
      else Some (Inr chunks))"

definition Chunk :: "'a list \<Rightarrow> int \<Rightarrow> (panic + 'a list list) option" where
  "Chunk slice size' = Chunk_loop slice size' 0 []"

subsection \<open>MinMax and MinMaxFunc\<close>

text \<open>
  \<^verbatim>\<open>MinMax\<close> and \<^verbatim>\<open>MinMaxFunc\<close> call \<^verbatim>\<open>slices.Min\<close>, \<^verbatim>\<open>slices.Max\<close>,
  \<^verbatim>\<open>slices.MinFunc\<close> and \<^verbatim>\<open>slices.MaxFunc\<close> of Go's standard library, which is not
  part of the repository. They are modelled after the library's source: each panics
  on a slice of length 0, otherwise starts with \<^verbatim>\<open>m := x[0]\<close> and scans
  \<^verbatim>\<open>x[1]\<close>, \<^verbatim>\<open>x[2]\<close>, ... in order; \<^verbatim>\<open>Min\<close> and \<^verbatim>\<open>Max\<close> set
  \<^verbatim>\<open>m = min(m, x[i])\<close> and \<^verbatim>\<open>m = max(m, x[i])\<close>, \<^verbatim>\<open>MinFunc\<close> replaces \<open>m\<close> by
  \<^verbatim>\<open>x[i]\<close> when \<^verbatim>\<open>cmp(x[i], m) < 0\<close> and \<^verbatim>\<open>MaxFunc\<close> when \<^verbatim>\<open>cmp(x[i], m) > 0\<close>.
  The constraint \<^verbatim>\<open>cmp.Ordered\<close> is the class \<open>linorder\<close> (integers and strings;
  floating-point NaN is outside the model).
\<close>

fun Min_loop :: "'a::linorder \<Rightarrow> 'a list \<Rightarrow> 'a" where
  "Min_loop m [] = m"
| "Min_loop m (xi # rest) = Min_loop (min m xi) rest"

definition slices_Min :: "'a::linorder list \<Rightarrow> panic + 'a" where
  "slices_Min x =
     (case x of
        [] \<Rightarrow> Inl (EmptyList ''slices.Min: empty list'')
      | x0 # rest \<Rightarrow> Inr (Min_loop x0 rest))"

fun Max_loop :: "'a::linorder \<Rightarrow> 'a list \<Rightarrow> 'a" where
  "Max_loop m [] = m"
| "Max_loop m (xi # rest) = Max_loop (max m xi) rest"

definition slices_Max :: "'a::linorder list \<Rightarrow> panic + 'a" where
  "slices_Max x =
     (case x of
        [] \<Rightarrow> Inl (EmptyList ''slices.Max: empty list'')
      | x0 # rest \<Rightarrow> Inr (Max_loop x0 rest))"

fun MinFunc_loop :: "'a \<Rightarrow> 'a list \<Rightarrow> ('a \<Rightarrow> 'a \<Rightarrow> int) \<Rightarrow> 'a" where
  "MinFunc_loop m [] cmp = m"
| "MinFunc_loop m (xi # rest) cmp =
     (if cmp xi m < 0 then MinFunc_loop xi rest cmp else MinFunc_loop m rest cmp)"

definition slices_MinFunc :: "'a list \<Rightarrow> ('a \<Rightarrow> 'a \<Rightarrow> int) \<Rightarrow> panic + 'a" where
  "slices_MinFunc x cmp =
     (case x of
        [] \<Rightarrow> Inl (EmptyList ''slices.MinFunc: empty list'')
      | x0 # rest \<Rightarrow> Inr (MinFunc_loop x0 rest cmp))"

fun MaxFunc_loop :: "'a \<Rightarrow> 'a list \<Rightarrow> ('a \<Rightarrow> 'a \<Rightarrow> int) \<Rightarrow> 'a" where
  "MaxFunc_loop m [] cmp = m"
| "MaxFunc_loop m (xi # rest) cmp =
     (if cmp xi m > 0 then MaxFunc_loop xi rest cmp else MaxFunc_loop m rest cmp)"

definition slices_MaxFunc :: "'a list \<Rightarrow> ('a \<Rightarrow> 'a \<Rightarrow> int) \<Rightarrow> panic + 'a" where
  "slices_MaxFunc x cmp =
     (case x of
        [] \<Rightarrow> Inl (EmptyList ''slices.MaxFunc: empty list'')
      | x0 # rest \<Rightarrow> Inr (MaxFunc_loop x0 rest cmp))"

text \<open>
  Go evaluates the two calls of the \<^verbatim>\<open>return\<close> statement from left to right; a panic
  of the first ends the function.
\<close>

definition MinMax :: "'a::linorder list \<Rightarrow> panic + 'a \<times> 'a" where
  "MinMax slice =
     (case slices_Min slice of
        Inl p \<Rightarrow> Inl p
      | Inr mn \<Rightarrow> (case slices_Max slice of Inl p \<Rightarrow> Inl p | Inr mx \<Rightarrow> Inr (mn, mx)))"

definition MinMaxFunc :: "'a list \<Rightarrow> ('a \<Rightarrow> 'a \<Rightarrow> int) \<Rightarrow> panic + 'a \<times> 'a" where
  "MinMaxFunc slice lessf =
     (case slices_MinFunc slice lessf of
        Inl p \<Rightarrow> Inl p
      | Inr mn \<Rightarrow>
          (case slices_MaxFunc slice lessf of Inl p \<Rightarrow> Inl p | Inr mx \<Rightarrow> Inr (mn, mx)))"

text \<open>
  The contract the documentation of \<^verbatim>\<open>MinMaxFunc\<close> puts on the comparison function:
  negative, zero or positive as the first argument is below, equal to or above the
  second, for one total order of the elements (elements that compare as equal need not
  be identical). In terms of the function alone: swapping the arguments swaps the sign,
  and "not above" is transitive.
\<close>

definition comparator_contract :: "('a \<Rightarrow> 'a \<Rightarrow> int) \<Rightarrow> bool" where
  "comparator_contract cmp \<longleftrightarrow>
     (\<forall>a b. (cmp a b < 0) = (0 < cmp b a))
     \<and> (\<forall>a b c. cmp a b \<le> 0 \<and> cmp b c \<le> 0 \<longrightarrow> cmp a c \<le> 0)"

text \<open>
  The invariant of the scan of \<^verbatim>\<open>slices.MinFunc\<close>: \<open>m\<close> is an element of the part
  \<open>p\<close> read so far, not above any element of \<open>p\<close>, and strictly below every element
  in front of its position.
\<close>

definition first_least :: "('a \<Rightarrow> 'a \<Rightarrow> int) \<Rightarrow> 'a list \<Rightarrow> 'a \<Rightarrow> bool" where
  "first_least cmp p m \<longleftrightarrow>
     (\<exists>i < length p. p ! i = m \<and> (\<forall>x \<in> set p. cmp m x \<le> 0)
        \<and> (\<forall>j < i. cmp m (p ! j) < 0))"

section \<open>Properties\<close>

subsection \<open>Filter and Partition\<close>

lemma Filter_loop_filter: "Filter_loop xs keep out = out @ filter keep xs"
  by (induction xs arbitrary: out) simp_all

lemma Filter_filter: "Filter xs keep = filter keep xs"
  by (simp add: Filter_def Filter_loop_filter)

lemma Partition_loop_filter:
  "Partition_loop xs pred ms ns = (ms @ filter pred xs, ns @ filter (\<lambda>x. \<not> pred x) xs)"
  by (induction xs arbitrary: ms ns) simp_all

text \<open>
  Claim C5. For every sequence and predicate, the first component of \<open>Partition\<close> is
  \<open>Filter\<close> with the predicate and the second is \<open>Filter\<close> with its negation.
\<close>

theorem Partition_is_Filter:
  "Partition s p = (Filter s p, Filter s (\<lambda>x. \<not> p x))"
  by (simp add: Partition_def Partition_loop_filter Filter_filter)

subsection \<open>Reduce\<close>

lemma Reduce_loop_foldl: "Reduce_loop xs acc f = foldl f acc xs"
  by (induction xs arbitrary: acc) simp_all

lemma Reduce_loop_snoc: "Reduce_loop (xs @ [x]) acc f = f (Reduce_loop xs acc f) x"
  by (simp add: Reduce_loop_foldl)

lemma logged_apply: "logged f (log, acc) v = (log @ [(acc, v)], f acc v)"
  by (simp add: logged_def)

lemma Reduce_loop_logged:
  "Reduce_loop xs (log, acc) (logged f) =
     (log @ map (\<lambda>i. (Reduce_loop (take i xs) acc f, xs ! i)) [0..<length xs],
      Reduce_loop xs acc f)"
proof (induction xs arbitrary: log acc)
  case Nil
  show ?case by simp
next
  case (Cons x xs)
  have "[0..<length (x # xs)] = 0 # map Suc [0..<length xs]"
    by (simp add: upt_conv_Cons map_Suc_upt del: upt_Suc)
  then have shift: "map (\<lambda>i. (Reduce_loop (take i (x # xs)) acc f, (x # xs) ! i)) [0..<length (x # xs)]
      = (acc, x) # map (\<lambda>i. (Reduce_loop (take i xs) (f acc x) f, xs ! i)) [0..<length xs]"
    by (simp add: comp_def)
  have "Reduce_loop (x # xs) (log, acc) (logged f)
      = Reduce_loop xs (log @ [(acc, x)], f acc x) (logged f)"
    by (simp add: logged_apply)
  then show ?case
    unfolding shift by (simp add: Cons.IH)
qed

text \<open>
  Claim C4. \<open>Reduce\<close> is the left fold: it returns \<open>init\<close> on the empty sequence, and
  on a sequence extended by one last element it applies \<open>f\<close> once more, outermost, to the
  result for the shorter sequence. With a combine function that logs its calls, the log
  has exactly one entry per element, in index order, and the \<open>i\<close>-th call receives the
  fold of the first \<open>i\<close> elements and the element at index \<open>i\<close>.
\<close>

theorem Reduce_left_fold:
  "Reduce [] init f = init
   \<and> Reduce (s @ [x]) init f = f (Reduce s init f) x
   \<and> Reduce s init f = foldl f init s
   \<and> Reduce s ([], init) (logged f) =
       (map (\<lambda>i. (Reduce (take i s) init f, s ! i)) [0..<length s], Reduce s init f)"
  by (simp add: Reduce_def Reduce_loop_snoc Reduce_loop_foldl [symmetric] Reduce_loop_logged)

subsection \<open>LastIndex\<close>

lemma LastIndex_loop_found:
  "0 \<le> m \<Longrightarrow> m \<le> i \<Longrightarrow> i < int (length s) \<Longrightarrow> s ! nat m = v \<Longrightarrow>
   (\<forall>j. m < j \<and> j \<le> i \<longrightarrow> s ! nat j \<noteq> v) \<Longrightarrow>
   LastIndex_loop s v i = Inr (m, True)"
proof (induction s v i rule: LastIndex_loop.induct)
  case (1 slice v i)
  show ?case
  proof (cases "m = i")
    case True
    with "1.prems" show ?thesis
      by (subst LastIndex_loop.simps) simp
  next
    case False
    with "1.prems" have ne: "slice ! nat i \<noteq> v" and lt: "m \<le> i - 1" by auto
    from "1.prems" have rest: "\<forall>j. m < j \<and> j \<le> i - 1 \<longrightarrow> slice ! nat j \<noteq> v" by auto
    have "LastIndex_loop slice v (i - 1) = Inr (m, True)"
      using "1.prems" ne lt rest by (intro "1.IH") auto
    with "1.prems" ne show ?thesis
      by (subst LastIndex_loop.simps) simp
  qed
qed

lemma LastIndex_loop_absent:
  "- 1 \<le> i \<Longrightarrow> i < int (length s) \<Longrightarrow> (\<forall>j. 0 \<le> j \<and> j \<le> i \<longrightarrow> s ! nat j \<noteq> v) \<Longrightarrow>
   LastIndex_loop s v i = Inr (- 1, False)"
proof (induction s v i rule: LastIndex_loop.induct)
  case (1 slice v i)
  show ?case
  proof (cases "0 \<le> i")
    case False
    then show ?thesis by (subst LastIndex_loop.simps) simp
  next
    case True
    with "1.prems" have ne: "slice ! nat i \<noteq> v" by auto
    have "LastIndex_loop slice v (i - 1) = Inr (- 1, False)"
      using "1.prems" ne True by (intro "1.IH") auto
    with "1.prems" ne True show ?thesis
      by (subst LastIndex_loop.simps) simp
  qed
qed

text \<open>
  Claim C7. When the target occurs in the sequence, \<open>LastIndex\<close> returns the highest
  index holding it, with \<open>True\<close>; when it does not occur (in particular on the empty
  sequence), it returns \<open>- 1\<close> with \<open>False\<close>. The index read never panics.
\<close>

theorem LastIndex_highest:
  "(v \<in> set s \<longrightarrow>
      (\<exists>i < length s. LastIndex s v = Inr (int i, True) \<and> s ! i = v
         \<and> (\<forall>j. i < j \<and> j < length s \<longrightarrow> s ! j \<noteq> v)))
   \<and> (v \<notin> set s \<longrightarrow> LastIndex s v = Inr (- 1, False))"
proof (intro conjI impI)
  assume "v \<in> set s"
  then have ne: "s \<noteq> []" by auto
  define P where "P i \<longleftrightarrow> i < length s \<and> s ! i = v" for i
  from \<open>v \<in> set s\<close> obtain i0 where "P i0" by (auto simp: in_set_conv_nth P_def)
  define i where "i = (GREATEST i. P i)"
  have bound: "\<And>y. P y \<Longrightarrow> y \<le> length s" by (simp add: P_def)
  have Pi: "P i" unfolding i_def using \<open>P i0\<close> bound by (rule GreatestI_nat)
  have top: "j \<le> i" if "P j" for j
    unfolding i_def using that bound by (rule Greatest_le_nat)
  have later: "\<forall>j. i < j \<and> j < length s \<longrightarrow> s ! j \<noteq> v"
    using top by (fastforce simp: P_def)
  have "s ! nat j \<noteq> v" if "int i < j" "j \<le> int (length s) - 1" for j
    using later that by (auto dest!: spec [of _ "nat j"])
  then have "LastIndex_loop s v (int (length s) - 1) = Inr (int i, True)"
    using Pi by (intro LastIndex_loop_found) (auto simp: P_def)
  then have "LastIndex s v = Inr (int i, True)" by (simp add: LastIndex_def)
  with Pi later show "\<exists>i < length s. LastIndex s v = Inr (int i, True) \<and> s ! i = v
         \<and> (\<forall>j. i < j \<and> j < length s \<longrightarrow> s ! j \<noteq> v)"
    by (auto simp: P_def)
next
  assume nin: "v \<notin> set s"
  have "s ! nat j \<noteq> v" if "0 \<le> j" "j \<le> int (length s) - 1" for j
  proof -
    from that have "nat j < length s" by simp
    then have "s ! nat j \<in> set s" by (rule nth_mem)
    with nin show ?thesis by auto
  qed
  then have "\<forall>j. 0 \<le> j \<and> j \<le> int (length s) - 1 \<longrightarrow> s ! nat j \<noteq> v"
    by blast
  then have "LastIndex_loop s v (int (length s) - 1) = Inr (- 1, False)"
    by (intro LastIndex_loop_absent) auto
  then show "LastIndex s v = Inr (- 1, False)" by (simp add: LastIndex_def)
qed

theorem LastIndex_highest_witness:
  "''b'' \<in> set [''a'', ''b'', ''c'', ''b''] \<and> ''z'' \<notin> set [''a'', ''b'', ''c'', ''b'']
   \<and> LastIndex [''a'', ''b'', ''c'', ''b''] ''b'' = Inr (3, True)
   \<and> LastIndex [''a'', ''b'', ''c'', ''b''] ''z'' = Inr (- 1, False)"
proof -
  let ?s = "[''a'', ''b'', ''c'', ''b'']"
  have b: "''b'' \<in> set ?s" and z: "''z'' \<notin> set ?s" by simp_all
  from LastIndex_highest [of "''b''" ?s] b
  obtain i where i: "i < length ?s" "LastIndex ?s ''b'' = Inr (int i, True)"
    "\<forall>j. i < j \<and> j < length ?s \<longrightarrow> ?s ! j \<noteq> ''b''" by blast
  from i(3) have "\<not> (i < 3)" by (auto dest: spec [of _ 3])
  with i(1) have "i = 3" by simp
  with i(2) have "LastIndex ?s ''b'' = Inr (3, True)" by simp
  moreover from LastIndex_highest [of "''z''" ?s] z
  have "LastIndex ?s ''z'' = Inr (- 1, False)" by blast
  ultimately show ?thesis using b z by blast
qed

subsection \<open>Unique\<close>

lemma Unique_loop_acc: "Unique_loop xs seen u = u @ Unique_loop xs seen []"
proof (induction xs arbitrary: seen u)
  case Nil
  show ?case by simp
next
  case (Cons x xs)
  show ?case
  proof (cases "seen x")
    case None
    let ?seen = "seen(x \<mapsto> ())"
    have "Unique_loop (x # xs) seen u = Unique_loop xs ?seen (u @ [x])"
      using None by simp
    also have "\<dots> = (u @ [x]) @ Unique_loop xs ?seen []" by (rule Cons.IH)
    finally have l: "Unique_loop (x # xs) seen u = u @ x # Unique_loop xs ?seen []" by simp
    have "Unique_loop (x # xs) seen [] = Unique_loop xs ?seen [x]"
      using None by simp
    also have "\<dots> = [x] @ Unique_loop xs ?seen []" by (rule Cons.IH)
    finally have "Unique_loop (x # xs) seen [] = x # Unique_loop xs ?seen []" by simp
    with l show ?thesis by simp
  next
    case (Some ok)
    then show ?thesis using Cons.IH [of seen u] by simp
  qed
qed

lemma Unique_loop_Cons:
  "Unique_loop (x # xs) seen [] =
     (if x \<in> dom seen then Unique_loop xs seen []
      else x # Unique_loop xs (seen(x \<mapsto> ())) [])"
proof (cases "seen x")
  case None
  have "Unique_loop (x # xs) seen [] = Unique_loop xs (seen(x \<mapsto> ())) [x]"
    using None by simp
  also have "\<dots> = [x] @ Unique_loop xs (seen(x \<mapsto> ())) []" by (rule Unique_loop_acc)
  finally show ?thesis using None by (simp add: domIff)
next
  case (Some ok)
  then show ?thesis by (simp add: domIff)
qed

lemma set_Unique_loop: "set (Unique_loop xs seen []) = set xs - dom seen"
  by (induction xs arbitrary: seen) (auto simp: Unique_loop_Cons simp del: Unique_loop.simps(2))

lemma distinct_Unique_loop: "distinct (Unique_loop xs seen [])"
  by (induction xs arbitrary: seen)
     (auto simp: Unique_loop_Cons set_Unique_loop simp del: Unique_loop.simps(2))

lemma Unique_loop_distinct_id:
  "distinct xs \<Longrightarrow> set xs \<inter> dom seen = {} \<Longrightarrow> Unique_loop xs seen [] = xs"
  by (induction xs arbitrary: seen) (auto simp: Unique_loop_Cons simp del: Unique_loop.simps(2))

lemma Unique_loop_index:
  "Unique_loop xs seen [] =
     map ((!) xs) (filter (\<lambda>i. xs ! i \<notin> dom seen \<and> xs ! i \<notin> set (take i xs)) [0..<length xs])"
proof (induction xs arbitrary: seen)
  case Nil
  show ?case by simp
next
  case (Cons x xs)
  have upt: "[0..<length (x # xs)] = 0 # map Suc [0..<length xs]"
    by (simp add: upt_conv_Cons map_Suc_upt del: upt_Suc)
  show ?case
  proof (cases "x \<in> dom seen")
    case True
    have "Unique_loop xs seen [] =
        map ((!) xs) (filter (\<lambda>i. xs ! i \<notin> dom seen \<and> xs ! i \<noteq> x \<and> xs ! i \<notin> set (take i xs))
          [0..<length xs])"
      unfolding Cons.IH [of seen] using True
      by (intro arg_cong [where f = "map ((!) xs)"] filter_cong) auto
    with True show ?thesis
      unfolding upt
      by (simp add: Unique_loop_Cons filter_map comp_def del: Unique_loop.simps(2))
  next
    case False
    have "Unique_loop xs (seen(x \<mapsto> ())) [] =
        map ((!) xs) (filter (\<lambda>i. xs ! i \<notin> dom seen \<and> xs ! i \<noteq> x \<and> xs ! i \<notin> set (take i xs))
          [0..<length xs])"
      unfolding Cons.IH [of "seen(x \<mapsto> ())"]
      by (intro arg_cong [where f = "map ((!) xs)"] filter_cong) auto
    with False show ?thesis
      unfolding upt
      by (simp add: Unique_loop_Cons filter_map comp_def del: Unique_loop.simps(2))
  qed
qed

text \<open>
  Claim C6. \<open>Unique\<close> is idempotent, and its result consists of exactly the elements
  at the indices where a value occurs for the first time (the value does not occur at
  any smaller index), in increasing index order.
\<close>

theorem Unique_idempotent_first_occurrence:
  "Unique (Unique s) = Unique s
   \<and> Unique s = map ((!) s) (filter (\<lambda>i. s ! i \<notin> set (take i s)) [0..<length s])"
proof
  have "distinct (Unique s)" by (simp add: Unique_def distinct_Unique_loop)
  then show "Unique (Unique s) = Unique s"
    using Unique_loop_distinct_id [of "Unique s" Map.empty] by (simp add: Unique_def)
  show "Unique s = map ((!) s) (filter (\<lambda>i. s ! i \<notin> set (take i s)) [0..<length s])"
    by (simp add: Unique_def Unique_loop_index)
qed

subsection \<open>MinMax\<close>

text \<open>
  Claim C2. On the empty sequence \<open>MinMax\<close> and \<open>MinMaxFunc\<close> panic; they return no pair.
\<close>

theorem MinMax_empty_panics:
  "MinMax ([] :: 'a::linorder list) = Inl (EmptyList ''slices.Min: empty list'')
   \<and> MinMaxFunc ([] :: 'b list) lessf = Inl (EmptyList ''slices.MinFunc: empty list'')"
  by (simp add: MinMax_def MinMaxFunc_def slices_Min_def slices_MinFunc_def)

lemma Min_loop_Min: "Min_loop m xs = Min (set (m # xs))"
proof (induction xs arbitrary: m)
  case Nil
  show ?case by simp
next
  case (Cons x xs)
  have "Min (set (min m x # xs)) = Min (set (m # x # xs))"
    by (cases "set xs = {}") (simp_all add: min.assoc)
  with Cons.IH [of "min m x"] show ?case by simp
qed

lemma Max_loop_Max: "Max_loop m xs = Max (set (m # xs))"
proof (induction xs arbitrary: m)
  case Nil
  show ?case by simp
next
  case (Cons x xs)
  have "Max (set (max m x # xs)) = Max (set (m # x # xs))"
    by (cases "set xs = {}") (simp_all add: max.assoc)
  with Cons.IH [of "max m x"] show ?case by simp
qed

lemma MinMax_Min_Max: "s \<noteq> [] \<Longrightarrow> MinMax s = Inr (Min (set s), Max (set s))"
  by (cases s) (simp_all add: MinMax_def slices_Min_def slices_Max_def Min_loop_Min Max_loop_Max)

text \<open>
  Claim C3. On a non-empty sequence over a totally ordered type, \<open>MinMax\<close> returns a
  pair of elements of the sequence, the first below or equal to every element and the
  second above or equal to every element.
\<close>

theorem MinMax_bounds:
  assumes "s \<noteq> []"
  shows "\<exists>mn mx. MinMax s = Inr (mn, mx) \<and> mn \<in> set s \<and> mx \<in> set s
           \<and> (\<forall>e \<in> set s. mn \<le> e \<and> e \<le> mx)"
proof -
  from assms have "set s \<noteq> {}" "finite (set s)" by simp_all
  then have "Min (set s) \<in> set s" "Max (set s) \<in> set s"
    "\<forall>e \<in> set s. Min (set s) \<le> e \<and> e \<le> Max (set s)"
    by (simp_all add: Min_in Max_in)
  with MinMax_Min_Max [OF assms] show ?thesis by blast
qed

theorem MinMax_bounds_witness:
  "[5, 2, 9, 1 :: int] \<noteq> [] \<and> MinMax [5, 2, 9, 1 :: int] = Inr (1, 9)"
proof -
  let ?s = "[5, 2, 9, 1 :: int]"
  have ne: "?s \<noteq> []" by simp
  from MinMax_bounds [OF ne] obtain mn mx where r: "MinMax ?s = Inr (mn, mx)"
    and mem: "mn \<in> set ?s" "mx \<in> set ?s" and bd: "\<forall>e \<in> set ?s. mn \<le> e \<and> e \<le> mx"
    by blast
  from mem bd have "mn = 1" "mx = 9" by auto
  with r ne show ?thesis by simp
qed

subsection \<open>MinMaxFunc\<close>

lemma contract_refl: "comparator_contract cmp \<Longrightarrow> cmp a a = 0"
  unfolding comparator_contract_def by (metis less_irrefl not_less_iff_gr_or_eq)

lemma contract_total: "comparator_contract cmp \<Longrightarrow> \<not> cmp a b < 0 \<Longrightarrow> cmp b a \<le> 0"
  unfolding comparator_contract_def by (metis not_less)

lemma contract_less_le:
  assumes "comparator_contract cmp" "cmp a b < 0" "cmp b c \<le> 0"
  shows "cmp a c < 0"
proof (rule ccontr)
  assume "\<not> cmp a c < 0"
  with assms(1) have "cmp c a \<le> 0" by (rule contract_total)
  with assms(1,3) have "cmp b a \<le> 0"
    unfolding comparator_contract_def by blast
  moreover from assms(1,2) have "0 < cmp b a"
    unfolding comparator_contract_def by blast
  ultimately show False by simp
qed

lemma first_least_step:
  assumes c: "comparator_contract cmp" and fl: "first_least cmp p m"
  shows "first_least cmp (p @ [x]) (if cmp x m < 0 then x else m)"
proof -
  from fl obtain i where i: "i < length p" "p ! i = m" "\<forall>y \<in> set p. cmp m y \<le> 0"
    "\<forall>j < i. cmp m (p ! j) < 0"
    unfolding first_least_def by blast
  show ?thesis
  proof (cases "cmp x m < 0")
    case True
    have "cmp x y < 0" if "y \<in> set p" for y
      using c True i(3) that by (blast intro: contract_less_le)
    then have "\<forall>y \<in> set (p @ [x]). cmp x y \<le> 0" "\<forall>j < length p. cmp x ((p @ [x]) ! j) < 0"
      using contract_refl [OF c, of x] by (auto simp: nth_append intro: order.strict_implies_order)
    then have "first_least cmp (p @ [x]) x"
      unfolding first_least_def by (intro exI [of _ "length p"]) simp
    with True show ?thesis by simp
  next
    case False
    with c have "cmp m x \<le> 0" by (rule contract_total)
    with i have "\<forall>y \<in> set (p @ [x]). cmp m y \<le> 0" "(p @ [x]) ! i = m"
      "\<forall>j < i. cmp m ((p @ [x]) ! j) < 0"
      by (auto simp: nth_append)
    with i(1) have "first_least cmp (p @ [x]) m"
      unfolding first_least_def by (intro exI [of _ i]) simp
    with False show ?thesis by simp
  qed
qed

lemma MinFunc_loop_first_least:
  "comparator_contract cmp \<Longrightarrow> first_least cmp p m \<Longrightarrow>
   first_least cmp (p @ rest) (MinFunc_loop m rest cmp)"
proof (induction rest arbitrary: p m)
  case Nil
  then show ?case by simp
next
  case (Cons x rest)
  from first_least_step [OF Cons.prems, of x]
  have "first_least cmp ((p @ [x]) @ rest) (MinFunc_loop (if cmp x m < 0 then x else m) rest cmp)"
    by (rule Cons.IH [OF Cons.prems(1)])
  then show ?case by (simp split: if_splits)
qed

lemma first_least_find:
  assumes c: "comparator_contract cmp" and fl: "first_least cmp s m"
  shows "find (\<lambda>e. \<forall>x \<in> set s. cmp e x \<le> 0) s = Some m"
proof -
  from fl obtain i where i: "i < length s" "s ! i = m" "\<forall>y \<in> set s. cmp m y \<le> 0"
    "\<forall>j < i. cmp m (s ! j) < 0"
    unfolding first_least_def by blast
  have "\<not> (\<forall>x \<in> set s. cmp (s ! j) x \<le> 0)" if "j < i" for j
  proof
    assume "\<forall>x \<in> set s. cmp (s ! j) x \<le> 0"
    with i(1,2) have "cmp (s ! j) m \<le> 0" by (metis nth_mem)
    moreover from i(4) that have "cmp m (s ! j) < 0" by blast
    with c have "0 < cmp (s ! j) m" unfolding comparator_contract_def by blast
    ultimately show False by simp
  qed
  with i show ?thesis unfolding find_Some_iff by blast
qed

lemma contract_flip: "comparator_contract cmp \<Longrightarrow> comparator_contract (\<lambda>a b. - cmp a b)"
proof -
  assume c: "comparator_contract cmp"
  have sign: "(cmp a b < 0) = (0 < cmp b a)" for a b
    using c unfolding comparator_contract_def by blast
  have trans: "cmp a b \<le> 0 \<Longrightarrow> cmp b d \<le> 0 \<Longrightarrow> cmp a d \<le> 0" for a b d
    using c unfolding comparator_contract_def by blast
  have ge: "0 \<le> cmp a b \<longleftrightarrow> cmp b a \<le> 0" for a b
    using sign [of a b] sign [of b a] by auto
  have "0 \<le> cmp a d" if "0 \<le> cmp a b" "0 \<le> cmp b d" for a b d
    using that trans [of d b a] by (simp add: ge)
  then show ?thesis
    unfolding comparator_contract_def using sign by auto
qed

lemma MaxFunc_loop_flip: "MaxFunc_loop m rest cmp = MinFunc_loop m rest (\<lambda>a b. - cmp a b)"
  by (induction rest arbitrary: m) simp_all

lemma first_least_single: "comparator_contract cmp \<Longrightarrow> first_least cmp [x] x"
  unfolding first_least_def by (simp add: contract_refl)

lemma slices_MinFunc_first_least:
  assumes "comparator_contract cmp" "s \<noteq> []"
  shows "\<exists>m. slices_MinFunc s cmp = Inr m \<and> first_least cmp s m"
proof -
  from assms(2) obtain x0 rest where s: "s = x0 # rest" by (cases s) auto
  from MinFunc_loop_first_least [OF assms(1) first_least_single [OF assms(1)], of x0 rest]
  show ?thesis by (simp add: s slices_MinFunc_def)
qed

lemma slices_MaxFunc_flip: "slices_MaxFunc s cmp = 
    (case slices_MinFunc s (\<lambda>a b. - cmp a b) of 
       Inl p \<Rightarrow> Inl (EmptyList ''slices.MaxFunc: empty list'') | Inr m \<Rightarrow> Inr m)"
  by (cases s) (simp_all add: slices_MaxFunc_def slices_MinFunc_def MaxFunc_loop_flip)

text \<open>
  Claim C9. For a non-empty sequence and a comparison function meeting the documented
  contract, the minimum returned by \<open>MinMaxFunc\<close> is the first element, in input order,
  that is not above any element of the sequence, and the maximum returned is the first
  element that is not below any element: among tied extremal elements the leftmost is
  returned.
\<close>

theorem MinMaxFunc_first_of_ties:
  assumes "comparator_contract lessf" and "s \<noteq> []"
  shows "\<exists>mn mx. MinMaxFunc s lessf = Inr (mn, mx)
           \<and> find (\<lambda>e. \<forall>x \<in> set s. lessf e x \<le> 0) s = Some mn
           \<and> find (\<lambda>e. \<forall>x \<in> set s. 0 \<le> lessf e x) s = Some mx"
proof -
  from slices_MinFunc_first_least [OF assms]
  obtain mn where mn: "slices_MinFunc s lessf = Inr mn" "first_least lessf s mn" by blast
  from slices_MinFunc_first_least [OF contract_flip [OF assms(1)] assms(2)]
  obtain mx where mx: "slices_MinFunc s (\<lambda>a b. - lessf a b) = Inr mx"
    "first_least (\<lambda>a b. - lessf a b) s mx" by blast
  from mx(1) have "slices_MaxFunc s lessf = Inr mx" by (simp add: slices_MaxFunc_flip)
  with mn(1) have "MinMaxFunc s lessf = Inr (mn, mx)" by (simp add: MinMaxFunc_def)
  moreover from first_least_find [OF assms(1) mn(2)]
  have "find (\<lambda>e. \<forall>x \<in> set s. lessf e x \<le> 0) s = Some mn" .
  moreover from first_least_find [OF contract_flip [OF assms(1)] mx(2)]
  have "find (\<lambda>e. \<forall>x \<in> set s. 0 \<le> lessf e x) s = Some mx" by simp
  ultimately show ?thesis by blast
qed

text \<open>
  The example of the source with two more people, tied with Bob and with Charlie on age:
  the comparison is on the age alone.
\<close>

theorem MinMaxFunc_first_of_ties_witness:
  "comparator_contract (\<lambda>a b :: string \<times> int. if snd a < snd b then - 1 else if snd a > snd b then 1 else (0 :: int))
   \<and> [(''Alice'', 30 :: int), (''Bob'', 25), (''Charlie'', 40), (''Bill'', 25), (''Carol'', 40)] \<noteq> []
   \<and> MinMaxFunc [(''Alice'', 30), (''Bob'', 25), (''Charlie'', 40), (''Bill'', 25), (''Carol'', 40)]
        (\<lambda>a b :: string \<times> int. if snd a < snd b then - 1 else if snd a > snd b then 1 else (0 :: int))
       = Inr ((''Bob'', 25), (''Charlie'', 40))"
proof -
  let ?c = "\<lambda>a b :: string \<times> int. if snd a < snd b then - 1 else if snd a > snd b then 1 else (0 :: int)"
  let ?s = "[(''Alice'', 30), (''Bob'', 25), (''Charlie'', 40), (''Bill'', 25), (''Carol'', 40)] :: (string \<times> int) list"
  have c: "comparator_contract ?c" unfolding comparator_contract_def by auto
  have ne: "?s \<noteq> []" by simp
  from MinMaxFunc_first_of_ties [OF c ne] obtain mn mx where r: "MinMaxFunc ?s ?c = Inr (mn, mx)"
    and mn: "find (\<lambda>e. \<forall>x \<in> set ?s. ?c e x \<le> 0) ?s = Some mn"
    and mx: "find (\<lambda>e. \<forall>x \<in> set ?s. 0 \<le> ?c e x) ?s = Some mx"
    by blast
  from mn have "mn = (''Bob'', 25)" by simp
  moreover from mx have "mx = (''Charlie'', 40)" by simp
  ultimately show ?thesis using r c ne by simp
qed

subsection \<open>Chunk\<close>

lemma wrap64_id: "- (2 ^ 63) \<le> x \<Longrightarrow> x < 2 ^ 63 \<Longrightarrow> wrap64 x = x"
  by (simp add: wrap64_def)

lemma wrap64_overflow: "2 ^ 63 \<le> x \<Longrightarrow> x < 2 ^ 64 \<Longrightarrow> wrap64 x = x - 2 ^ 64"
proof -
  assume a: "2 ^ 63 \<le> x" "x < 2 ^ 64"
  have "x + 2 ^ 63 = (x - 2 ^ 63) + 2 ^ 64" by simp
  then have "(x + 2 ^ 63) mod 2 ^ 64 = (x - 2 ^ 63) mod 2 ^ 64"
    by (simp only: mod_add_self2)
  also have "\<dots> = x - 2 ^ 63" using a by (intro mod_pos_pos_trivial) simp_all
  finally show ?thesis by (simp add: wrap64_def)
qed

lemma Chunk_loop_exit:
  "\<not> i < int (length s) \<Longrightarrow> Chunk_loop s n i chunks = Some (Inr chunks)"
  by (subst Chunk_loop.simps) simp

lemma Chunk_loop_panic:
  "i < int (length s) \<Longrightarrow> \<not> (0 \<le> i \<and> i \<le> min (wrap64 (i + n)) (int (length s))) \<Longrightarrow>
   Chunk_loop s n i chunks = Some (Inl SliceBoundsOutOfRange)"
  by (subst Chunk_loop.simps) (simp only: Let_def if_True if_False simp_thms)

lemma Chunk_loop_step:
  "i < int (length s) \<Longrightarrow> 0 \<le> i \<Longrightarrow> i \<le> min (wrap64 (i + n)) (int (length s)) \<Longrightarrow>
   Chunk_loop s n i chunks =
     Chunk_loop s n (wrap64 (i + n))
       (chunks @ [take (nat (min (wrap64 (i + n)) (int (length s)) - i)) (drop (nat i) s)])"
  by (subst Chunk_loop.simps) (simp only: Let_def if_True if_False simp_thms)

lemma Chunk_loop_terminates:
  assumes n: "0 < n" "n < 2 ^ 63" and len: "int (length s) < 2 ^ 63"
  shows "\<exists>r. Chunk_loop s n i chunks = Some r"
proof (induction "nat (int (length s) - i)" arbitrary: i chunks rule: less_induct)
  case less
  show ?case
  proof (cases "i < int (length s)")
    case False
    then show ?thesis by (simp add: Chunk_loop_exit)
  next
    case inside: True
    show ?thesis
    proof (cases "0 \<le> i \<and> i \<le> min (wrap64 (i + n)) (int (length s))")
      case False
      with inside show ?thesis by (simp add: Chunk_loop_panic)
    next
      case True
      have "i + n < 2 ^ 63"
      proof (rule ccontr)
        assume "\<not> i + n < 2 ^ 63"
        moreover from inside len n have "i + n < 2 ^ 64" by simp
        ultimately have "wrap64 (i + n) = i + n - 2 ^ 64" by (simp add: wrap64_overflow)
        with inside len n have "wrap64 (i + n) < 0" by simp
        with True show False by simp
      qed
      with True n have w: "wrap64 (i + n) = i + n" by (simp add: wrap64_id)
      from inside n have "nat (int (length s) - (i + n)) < nat (int (length s) - i)" by simp
      from less [OF this] obtain r where
        "Chunk_loop s n (i + n)
           (chunks @ [take (nat (min (i + n) (int (length s)) - i)) (drop (nat i) s)]) = Some r"
        by blast
      with Chunk_loop_step [of i s n chunks] inside True show ?thesis
        unfolding w by simp
    qed
  qed
qed

lemma Chunk_loop_zero_diverges:
  assumes "Chunk_loop s n i chunks = Some r"
  shows "\<not> (n = 0 \<and> 0 \<le> i \<and> i < int (length s) \<and> int (length s) < 2 ^ 63)"
proof (rule Chunk_loop.raw_induct
    [where P = "\<lambda>s n i chunks r. \<not> (n = 0 \<and> 0 \<le> i \<and> i < int (length s) \<and> int (length s) < 2 ^ 63)",
      OF _ assms])
  fix loop :: "'a list \<Rightarrow> int \<Rightarrow> int \<Rightarrow> 'a list list \<Rightarrow> (panic + 'a list list) option"
  fix slice :: "'a list" and size' i :: int and chunks r
  assume IH: "\<And>s n i chunks r. loop s n i chunks = Some r \<Longrightarrow>
      \<not> (n = 0 \<and> 0 \<le> i \<and> i < int (length s) \<and> int (length s) < 2 ^ 63)"
  assume body: "(if i < int (length slice) then
        (let end' = min (wrap64 (i + size')) (int (length slice)) in
         if 0 \<le> i \<and> i \<le> end' then
           loop slice size' (wrap64 (i + size'))
             (chunks @ [take (nat (end' - i)) (drop (nat i) slice)])
         else Some (Inl SliceBoundsOutOfRange))
      else Some (Inr chunks)) = Some r"
  show "\<not> (size' = 0 \<and> 0 \<le> i \<and> i < int (length slice) \<and> int (length slice) < 2 ^ 63)"
  proof
    assume a: "size' = 0 \<and> 0 \<le> i \<and> i < int (length slice) \<and> int (length slice) < 2 ^ 63"
    then have w: "wrap64 (i + size') = i" by (simp add: wrap64_id)
    from body a have "loop slice size' i (chunks @ [take (nat (i - i)) (drop (nat i) slice)]) = Some r"
      unfolding w by (simp add: Let_def)
    from IH [OF this] a show False by simp
  qed
qed

text \<open>
  The lengths of the chunks of \<open>r\<close> remaining elements: as many full chunks as fit,
  then the remainder, when it is not zero.
\<close>

lemma chunk_lengths_step:
  "0 < n \<Longrightarrow> n \<le> r \<Longrightarrow>
   n # (replicate ((r - n) div n) n @ (if (r - n) mod n = 0 then [] else [(r - n) mod n]))
     = replicate (r div n) n @ (if r mod n = 0 then [] else [r mod n])" for n r :: nat
proof -
  assume n: "0 < n" "n \<le> r"
  then have "r div n = Suc ((r - n) div n)" "r mod n = (r - n) mod n"
    by (simp_all add: le_div_geq le_mod_geq)
  then show ?thesis by simp
qed

lemma Chunk_loop_no_overflow:
  assumes n: "0 < n" "n < 2 ^ 63" and len: "int (length s) < 2 ^ 63"
    and i: "0 \<le> i" "i < int (length s)"
    and ok: "Chunk_loop s n i chunks \<noteq> Some (Inl SliceBoundsOutOfRange)"
  shows "wrap64 (i + n) = i + n"
proof -
  have "i + n < 2 ^ 63"
  proof (rule ccontr)
    assume "\<not> i + n < 2 ^ 63"
    moreover from i len n have "i + n < 2 ^ 64" by simp
    ultimately have "wrap64 (i + n) = i + n - 2 ^ 64" by (simp add: wrap64_overflow)
    with i len n have "wrap64 (i + n) < 0" by simp
    with i have "\<not> (0 \<le> i \<and> i \<le> min (wrap64 (i + n)) (int (length s)))" by simp
    with i(2) have "Chunk_loop s n i chunks = Some (Inl SliceBoundsOutOfRange)"
      by (rule Chunk_loop_panic)
    with ok show False by simp
  qed
  with i n show ?thesis by (simp add: wrap64_id)
qed

lemma Chunk_loop_chunks:
  assumes n: "0 < n" "n < 2 ^ 63" and len: "int (length s) < 2 ^ 63"
  shows "0 \<le> i \<Longrightarrow> Chunk_loop s n i chunks \<noteq> Some (Inl SliceBoundsOutOfRange) \<Longrightarrow>
    \<exists>cs. Chunk_loop s n i chunks = Some (Inr (chunks @ cs))
        \<and> concat cs = drop (nat i) s
        \<and> map length cs =
            replicate ((length s - nat i) div nat n) (nat n)
            @ (if (length s - nat i) mod nat n = 0 then [] else [(length s - nat i) mod nat n])"
proof (induction "length s - nat i" arbitrary: i chunks rule: less_induct)
  case less
  show ?case
  proof (cases "i < int (length s)")
    case False
    with less.prems have "drop (nat i) s = []" "length s - nat i = 0" by simp_all
    with False show ?thesis by (simp add: Chunk_loop_exit)
  next
    case inside: True
    from n len less.prems(1) inside less.prems(2)
    have w: "wrap64 (i + n) = i + n" by (rule Chunk_loop_no_overflow)
    let ?e = "min (i + n) (int (length s))"
    let ?c = "take (nat (?e - i)) (drop (nat i) s)"
    from less.prems inside n have ok: "0 \<le> i" "i \<le> ?e" by simp_all
    from Chunk_loop_step [of i s n chunks] inside ok
    have step: "Chunk_loop s n i chunks = Chunk_loop s n (i + n) (chunks @ [?c])"
      unfolding w by simp
    from inside less.prems n have dec: "length s - nat (i + n) < length s - nat i" by simp
    from less.prems n have "0 \<le> i + n" by simp
    moreover from less.prems(2)
    have "Chunk_loop s n (i + n) (chunks @ [?c]) \<noteq> Some (Inl SliceBoundsOutOfRange)"
      unfolding step .
    ultimately obtain cs where
      cs: "Chunk_loop s n (i + n) (chunks @ [?c]) = Some (Inr ((chunks @ [?c]) @ cs))"
        "concat cs = drop (nat (i + n)) s"
        "map length cs =
            replicate ((length s - nat (i + n)) div nat n) (nat n)
            @ (if (length s - nat (i + n)) mod nat n = 0 then []
               else [(length s - nat (i + n)) mod nat n])"
      using less.hyps [OF dec, of "chunks @ [?c]"] by blast
    have nat_sum: "nat (i + n) = nat i + nat n" using less.prems n by (simp add: nat_add_distrib)
    show ?thesis
    proof (cases "i + n \<le> int (length s)")
      case True
      then have e: "nat (?e - i) = nat n" by simp
      have "drop (nat (i + n)) s = drop (nat n) (drop (nat i) s)"
        unfolding nat_sum by (simp add: add.commute)
      then have "?c @ drop (nat (i + n)) s = drop (nat i) s"
        unfolding e by (simp only: append_take_drop_id)
      with cs(2) have cat: "concat (?c # cs) = drop (nat i) s" by simp
      from True less.prems n have ge: "nat n \<le> length s - nat i" by simp
      then have lc: "length ?c = nat n" unfolding e by simp
      have r': "length s - nat (i + n) = (length s - nat i) - nat n" unfolding nat_sum by simp
      have m: "map length cs =
            replicate ((length s - nat i - nat n) div nat n) (nat n)
            @ (if (length s - nat i - nat n) mod nat n = 0 then []
               else [(length s - nat i - nat n) mod nat n])"
        using cs(3) unfolding r' .
      have "map length (?c # cs) = nat n # map length cs" using lc by simp
      also have "\<dots> = replicate ((length s - nat i) div nat n) (nat n)
            @ (if (length s - nat i) mod nat n = 0 then [] else [(length s - nat i) mod nat n])"
        unfolding m using n ge by (intro chunk_lengths_step) simp_all
      finally have "map length (?c # cs) =
            replicate ((length s - nat i) div nat n) (nat n)
            @ (if (length s - nat i) mod nat n = 0 then [] else [(length s - nat i) mod nat n])" .
      with cat cs(1) step show ?thesis
        by (intro exI [of _ "?c # cs"]) simp
    next
      case False
      then have past: "\<not> i + n < int (length s)" by simp
      then have "Chunk_loop s n (i + n) (chunks @ [?c]) = Some (Inr (chunks @ [?c]))"
        by (rule Chunk_loop_exit)
      with step have r: "Chunk_loop s n i chunks = Some (Inr (chunks @ [?c]))" by simp
      from False have e: "?e = int (length s)" by simp
      from inside less.prems have "nat (int (length s) - i) = length s - nat i" by simp
      then have c: "?c = drop (nat i) s" unfolding e by simp
      from False inside less.prems n have small: "length s - nat i < nat n" "0 < length s - nat i"
        by simp_all
      then have "map length [?c] =
            replicate ((length s - nat i) div nat n) (nat n)
            @ (if (length s - nat i) mod nat n = 0 then [] else [(length s - nat i) mod nat n])"
        unfolding c by simp
      with r c show ?thesis
        by (intro exI [of _ "[?c]"]) simp
    qed
  qed
qed

text \<open>
  Whenever \<open>Chunk\<close> returns for a positive chunk size, it returns the chunks of the
  claim: their concatenation is the sequence, and their lengths are \<open>n\<close>, as often as
  \<open>n\<close> fits into the length, followed by the remainder when that is not zero.
\<close>

lemma Chunk_returns_chunks:
  assumes "0 < n" "n < 2 ^ 63" "int (length s) < 2 ^ 63" and r: "Chunk s n = Some (Inr cs)"
  shows "concat cs = s
          \<and> map length cs =
              replicate (length s div nat n) (nat n)
              @ (if length s mod nat n = 0 then [] else [length s mod nat n])"
proof -
  from r have "Chunk_loop s n 0 [] \<noteq> Some (Inl SliceBoundsOutOfRange)" by (simp add: Chunk_def)
  from Chunk_loop_chunks [OF assms(1-3) _ this] r show ?thesis
    by (simp add: Chunk_def cong: if_cong)
qed

text \<open>
  On a sequence of at most \<open>2 ^ 62\<close> elements the index addition cannot overflow: the
  index is 0 or at least \<open>n\<close>, and below the length.
\<close>

lemma Chunk_loop_no_panic:
  assumes n: "0 < n" "n < 2 ^ 63" and len: "int (length s) \<le> 2 ^ 62"
  shows "0 \<le> i \<Longrightarrow> i = 0 \<or> n \<le> i \<Longrightarrow>
    Chunk_loop s n i chunks \<noteq> Some (Inl SliceBoundsOutOfRange)"
proof (induction "length s - nat i" arbitrary: i chunks rule: less_induct)
  case less
  show ?case
  proof (cases "i < int (length s)")
    case False
    then show ?thesis by (simp add: Chunk_loop_exit)
  next
    case inside: True
    from less.prems inside len n have "i + n < 2 ^ 63" by auto
    with less.prems n have w: "wrap64 (i + n) = i + n" by (simp add: wrap64_id)
    from less.prems inside n have ok: "0 \<le> i" "i \<le> min (i + n) (int (length s))" by simp_all
    from Chunk_loop_step [of i s n chunks] inside ok
    have step: "Chunk_loop s n i chunks =
        Chunk_loop s n (i + n)
          (chunks @ [take (nat (min (i + n) (int (length s)) - i)) (drop (nat i) s)])"
      unfolding w by simp
    from inside less.prems n have dec: "length s - nat (i + n) < length s - nat i" by simp
    from less.prems n have "0 \<le> i + n" "i + n = 0 \<or> n \<le> i + n" by simp_all
    from less.hyps [OF dec this] show ?thesis unfolding step .
  qed
qed

lemma Chunk_concat_lengths:
  assumes "0 < n" "n < 2 ^ 63" "int (length s) \<le> 2 ^ 62"
  shows "\<exists>cs. Chunk s n = Some (Inr cs) \<and> concat cs = s
          \<and> map length cs =
              replicate (length s div nat n) (nat n)
              @ (if length s mod nat n = 0 then [] else [length s mod nat n])"
proof -
  from assms(3) have len: "int (length s) < 2 ^ 63" by simp
  from Chunk_loop_no_panic [OF assms, of 0 "[]"]
  have "Chunk_loop s n 0 [] \<noteq> Some (Inl SliceBoundsOutOfRange)" by simp
  from Chunk_loop_chunks [OF assms(1,2) len _ this] show ?thesis
    by (simp add: Chunk_def cong: if_cong)
qed

lemma Chunk_negative_panics:
  assumes "s \<noteq> []" "n < 0" "- (2 ^ 63) \<le> n"
  shows "Chunk s n = Some (Inl SliceBoundsOutOfRange)"
proof -
  from assms have "wrap64 (0 + n) = n" by (simp add: wrap64_id)
  with assms have "\<not> (0 \<le> (0::int) \<and> 0 \<le> min (wrap64 (0 + n)) (int (length s)))" by simp
  moreover from assms have "0 < int (length s)" by simp
  ultimately show ?thesis unfolding Chunk_def by (rule Chunk_loop_panic [rotated])
qed

text \<open>
  How the loop ends, for a chunk size and a length in the range of Go's \<^verbatim>\<open>int\<close>. For
  a positive chunk size it ends on every sequence after finitely many rounds; on
  sequences of at most \<open>2 ^ 62\<close> elements it ends by reaching the end of the sequence,
  and returns chunks that cover the whole sequence. For the chunk size 0 on a non-empty
  sequence it never ends.
\<close>

lemma Chunk_ends:
  "(0 < n \<and> n < 2 ^ 63 \<and> int (length s) < 2 ^ 63 \<longrightarrow> (\<exists>r. Chunk s n = Some r))
   \<and> (0 < n \<and> n < 2 ^ 63 \<and> int (length s) \<le> 2 ^ 62 \<longrightarrow>
        (\<exists>cs. Chunk s n = Some (Inr cs) \<and> concat cs = s))
   \<and> (s \<noteq> [] \<and> int (length s) < 2 ^ 63 \<longrightarrow> Chunk s 0 = None)"
proof (intro conjI impI)
  assume "0 < n \<and> n < 2 ^ 63 \<and> int (length s) < 2 ^ 63"
  then show "\<exists>r. Chunk s n = Some r"
    unfolding Chunk_def by (intro Chunk_loop_terminates) simp_all
next
  assume "0 < n \<and> n < 2 ^ 63 \<and> int (length s) \<le> 2 ^ 62"
  then have "0 < n" "n < 2 ^ 63" "int (length s) \<le> 2 ^ 62" by simp_all
  from Chunk_concat_lengths [OF this]
  show "\<exists>cs. Chunk s n = Some (Inr cs) \<and> concat cs = s" by blast
next
  assume a: "s \<noteq> [] \<and> int (length s) < 2 ^ 63"
  show "Chunk s 0 = None"
  proof (cases "Chunk s 0")
    case None
    then show ?thesis .
  next
    case (Some r)
    then have "Chunk_loop s 0 0 [] = Some r" by (simp add: Chunk_def)
    from Chunk_loop_zero_diverges [OF this] a show ?thesis by simp
  qed
qed

lemma Chunk_ends_example:
  "(\<exists>cs. Chunk [1, 2, 3, 4, 5 :: int] 2 = Some (Inr cs) \<and> concat cs = [1, 2, 3, 4, 5])
   \<and> Chunk [1, 2, 3, 4, 5 :: int] 0 = None"
  using Chunk_ends [of 2 "[1, 2, 3, 4, 5 :: int]"] by simp

text \<open>
  Claim C1. For every sequence \<open>s\<close> and every positive chunk size \<open>n\<close>, the chunks of
  \<open>Chunk s n\<close> concatenate to \<open>s\<close>, and every chunk but possibly the last has length
  \<open>n\<close>. The code keeps this whenever it returns (\<open>Chunk_returns_chunks\<close>), and it
  returns on every sequence of at most \<open>2 ^ 62\<close> elements (\<open>Chunk_concat_lengths\<close>),
  but not beyond: on a sequence of \<open>2 ^ 62 + 1\<close> elements (of the empty struct type,
  which takes no memory) with the positive chunk size \<open>2 ^ 62\<close>, the second round of the
  loop computes \<open>i + size = 2 ^ 63\<close>, which wraps to \<open>- (2 ^ 63)\<close>; \<open>end\<close> is then
  negative and the slice expression panics, so no chunks are returned.
\<close>

theorem Chunk_overflow_panics:
  "length (replicate (2 ^ 62 + 1) ()) < 2 ^ 63
   \<and> (0 :: int) < 2 ^ 62
   \<and> Chunk (replicate (2 ^ 62 + 1) ()) (2 ^ 62) = Some (Inl SliceBoundsOutOfRange)"
proof -
  let ?s = "replicate (2 ^ 62 + 1) ()"
  have first: "Chunk_loop ?s (2 ^ 62) 0 [] = Chunk_loop ?s (2 ^ 62) (2 ^ 62) [take (2 ^ 62) ?s]"
    by (subst Chunk_loop.simps) (simp add: wrap64_def)
  have second: "Chunk_loop ?s (2 ^ 62) (2 ^ 62) [take (2 ^ 62) ?s] = Some (Inl SliceBoundsOutOfRange)"
    by (subst Chunk_loop.simps) (simp add: wrap64_def)
  from first second show ?thesis by (simp add: Chunk_def)
qed

text \<open>
  Claim C8. For every sequence and every positive chunk size, \<open>Chunk\<close> terminates: the
  loop, advancing the index by the chunk size each round, reaches the end of the
  sequence in finitely many rounds. (For a chunk size of zero the loop may run forever.)
  The code keeps this on sequences of at most \<open>2 ^ 62\<close> elements, and for the chunk size
  0 on a non-empty sequence it does run forever (\<open>Chunk_ends\<close>). Beyond \<open>2 ^ 62\<close>
  elements the loop can stop before the end of the sequence, by the overflow of claim
  C1: on \<open>2 ^ 62 + 1\<close> elements with the chunk size \<open>2 ^ 62\<close>, the first round takes the
  index to \<open>2 ^ 62\<close>, which is still below the length, and the second round panics
  there; the last element is never reached and no chunks are returned.
\<close>

theorem Chunk_overflow_stops_before_end:
  "Chunk_loop (replicate (2 ^ 62 + 1) ()) (2 ^ 62) 0 []
     = Chunk_loop (replicate (2 ^ 62 + 1) ()) (2 ^ 62) (2 ^ 62) [replicate (2 ^ 62) ()]
   \<and> (2 ^ 62 :: int) < int (length (replicate (2 ^ 62 + 1) ()))
   \<and> Chunk_loop (replicate (2 ^ 62 + 1) ()) (2 ^ 62) (2 ^ 62) [replicate (2 ^ 62) ()]
     = Some (Inl SliceBoundsOutOfRange)
   \<and> (\<nexists>cs. Chunk (replicate (2 ^ 62 + 1) ()) (2 ^ 62) = Some (Inr cs))"
proof -
  let ?s = "replicate (2 ^ 62 + 1) ()"
  have first: "Chunk_loop ?s (2 ^ 62) 0 [] = Chunk_loop ?s (2 ^ 62) (2 ^ 62) [replicate (2 ^ 62) ()]"
    by (subst Chunk_loop.simps) (simp add: wrap64_def)
  have below: "(2 ^ 62 :: int) < int (length ?s)" by simp
  have second: "Chunk_loop ?s (2 ^ 62) (2 ^ 62) [replicate (2 ^ 62) ()]
      = Some (Inl SliceBoundsOutOfRange)"
    by (subst Chunk_loop.simps) (simp add: wrap64_def)
  from first second have "Chunk ?s (2 ^ 62) = Some (Inl SliceBoundsOutOfRange)"
    by (simp only: Chunk_def)
  then have "\<nexists>cs. Chunk ?s (2 ^ 62) = Some (Inr cs)" by simp
  with first below second show ?thesis by blast
qed

text \<open>
  Claim C10. On the empty sequence \<open>Chunk\<close> terminates and returns no chunks, for every
  chunk size, also zero and negative ones.
\<close>

theorem Chunk_empty:
  "Chunk [] n = Some (Inr [])"
  by (simp add: Chunk_def Chunk_loop_exit)

subsection \<open>The examples of the package's tests\<close>

text \<open>
  The model computes the outputs that the examples in \<^verbatim>\<open>seq_test.go\<close> expect.
\<close>

lemma Example_Filter: "Filter [1, 2, 3, 4, 5, 6 :: int] (\<lambda>n. n mod 2 = 0) = [2, 4, 6]"
  by (simp add: Filter_def)

lemma Example_Reduce: "Reduce [1, 2, 3, 4 :: int] 0 (\<lambda>acc n. acc + n) = 10"
  by (simp add: Reduce_def)

lemma Example_LastIndex:
  "LastIndex [''a'', ''b'', ''c'', ''b''] ''b'' = Inr (3, True)"
  "LastIndex [''a'', ''b'', ''c'', ''b''] ''z'' = Inr (- 1, False)"
  by code_simp+

lemma Example_Partition:
  "Partition [1, 2, 3, 4, 5, 6 :: int] (\<lambda>n. n mod 2 = 0) = ([2, 4, 6], [1, 3, 5])"
  by (simp add: Partition_def)

lemma Example_Unique: "Unique [1, 2, 1, 3, 2, 4, 4 :: int] = [1, 2, 3, 4]"
  by (simp add: Unique_def)

lemma Example_Chunk: "Chunk [1, 2, 3, 4, 5 :: int] 2 = Some (Inr [[1, 2], [3, 4], [5]])"
  by (simp add: Chunk_def Chunk_loop.simps wrap64_def)

lemma Example_MinMax: "MinMax [5, 2, 9, 1 :: int] = Inr (1, 9)"
  by (simp add: MinMax_def slices_Min_def slices_Max_def)

lemma Example_MinMaxFunc:
  "MinMaxFunc [(''Alice'', 30), (''Bob'', 25), (''Charlie'', 40)]
     (\<lambda>a b :: string \<times> int. if snd a < snd b then - 1 else if snd a > snd b then 1 else 0)
   = Inr ((''Bob'', 25), (''Charlie'', 40))"
  by (simp add: MinMaxFunc_def slices_MinFunc_def slices_MaxFunc_def)

end
